theory Spec2Isabelle
  imports Main
begin

section \<open>Errors and signals\<close>

text \<open>
  Go error values.  The package compares errors with \<open>==\<close>, that is by identity of the
  sentinel value, so every sentinel is a constructor of its own and a wrapped error
  (\<open>fmt.Errorf("...: %w", err)\<close>) is different from the error it wraps.  A Go \<open>error\<close>
  that may be \<open>nil\<close> is an \<open>error option\<close>, \<open>None\<close> being \<open>nil\<close>.
\<close>

datatype error =
    ErrShutdownSignalReceived
  | ErrImmediateShutdownSignalReceived
  | ErrServerClosed
  | ErrServerStopped
  | ErrOther string
  | ErrWrapped string error

text \<open>The three signals \<open>handleShutdownSignals\<close> subscribes to.\<close>

datatype signal = SIGINT | SIGTERM | SIGKILL

section \<open>The server adapters\<close>

text \<open>
  \<open>httpService.Start\<close>: the argument is what \<open>server.ListenAndServe()\<close> returned.
\<close>

definition httpService_Start :: "error option \<Rightarrow> error option" where
  "httpService_Start listenAndServe =
     (case listenAndServe of
        None \<Rightarrow> None
      | Some err \<Rightarrow> if err = ErrServerClosed then None else Some err)"

text \<open>
  \<open>grpcService.Start\<close>: the first argument is the error of \<open>net.Listen\<close>, the second
  what \<open>server.Serve(lis)\<close> returned (it is only called when listening succeeded).
\<close>

definition grpcService_Start :: "error option \<Rightarrow> error option \<Rightarrow> error option" where
  "grpcService_Start listen serve =
     (case listen of
        Some err \<Rightarrow> Some (ErrWrapped ''could not listen on tcp address: '' err)
      | None \<Rightarrow>
          (case serve of
             None \<Rightarrow> None
           | Some err \<Rightarrow> if err = ErrServerStopped then None else Some err))"

section \<open>The signal listener\<close>

text \<open>
  One iteration of the loop of \<open>handleShutdownSignals\<close>, after \<open>sig := <-signals\<close>: the
  counter is incremented and the error to send on \<open>errCh\<close> is chosen.  The result is the
  new counter and that error.
\<close>

definition handleShutdownSignals_body :: "signal \<Rightarrow> int \<Rightarrow> int \<times> error" where
  "handleShutdownSignals_body sig count =
     (let count' = count + 1
      in (count',
          if count' > 1 \<or> sig = SIGKILL then ErrImmediateShutdownSignalReceived
          else ErrShutdownSignalReceived))"

text \<open>
  The loop over a sequence of received signals: for each signal, the value of the counter
  after it and the error emitted for it.
\<close>

fun handleShutdownSignals_loop :: "int \<Rightarrow> signal list \<Rightarrow> (int \<times> error) list" where
  "handleShutdownSignals_loop count [] = []"
| "handleShutdownSignals_loop count (sig # sigs) =
     (let (count', err) = handleShutdownSignals_body sig count
      in (count', err) # handleShutdownSignals_loop count' sigs)"

section \<open>The coordinator\<close>

text \<open>
  Program counters of the goroutines.  \<open>start\<close> (the supervisory task of one service):
  \<^item> \<open>SupEntry\<close>: the goroutine \<open>go lifetime.start(svc)\<close> exists and has not yet spawned
    the goroutine that calls \<open>svc.Start()\<close>;
  \<^item> \<open>SupSelect\<close>: blocked in the \<open>select\<close>;
  \<^item> \<open>SupForward e\<close>: took \<open>startErr := <-startErrs\<close>, blocked in \<open>lifetime.errCh <- startErr\<close>;
  \<^item> \<open>SupStop\<close>: took \<open><-lifetime.ctx.Done()\<close>, inside \<open>svc.Stop()\<close>;
  \<^item> \<open>SupWait\<close>: \<open>svc.Stop()\<close> returned, blocked in \<open>startWg.Wait()\<close>;
  \<^item> \<open>SupReturn\<close>: the send on \<open>errCh\<close> completed, about to return;
  \<^item> \<open>SupExited\<close>: returned, the deferred \<open>lifetime.serviceWg.Done()\<close> has run.
\<close>

datatype sup_pc =
  SupEntry | SupSelect | SupForward error | SupStop | SupWait | SupReturn | SupExited

text \<open>
  The anonymous goroutine of \<open>start\<close>:
  \<^item> \<open>GoNone\<close>: not spawned; \<open>GoSpawned\<close>: spawned, \<open>svc.Start()\<close> not yet called;
  \<^item> \<open>GoStart\<close>: inside \<open>svc.Start()\<close>;
  \<^item> \<open>GoSend e\<close>: \<open>svc.Start()\<close> returned \<open>e \<noteq> nil\<close>, blocked in \<open>startErrs <- err\<close>
    (\<open>startErrs\<close> is unbuffered);
  \<^item> \<open>GoDefer\<close>: about to run the deferred \<open>startWg.Done()\<close>;
  \<^item> \<open>GoExited\<close>: \<open>startWg.Done()\<close> has run.
\<close>

datatype go_pc = GoNone | GoSpawned | GoStart | GoSend error | GoDefer | GoExited

text \<open>
  One registered service with its two goroutines.  The service itself is opaque
  (an interface value); what the coordinator did to it is recorded: whether \<open>Start\<close> was
  called, what it returned once it has (\<open>Some None\<close> is a \<open>nil\<close> return), how often
  \<open>Stop\<close> was called, and the errors the supervisory task handed to \<open>errCh\<close>.
\<close>

record service =
  sup :: sup_pc
  starter :: go_pc
  startCalled :: bool
  startResult :: "error option option"
  stopCalls :: nat
  forwarded :: "error list"

text \<open>
  The goroutine of \<open>handleErrors\<close>: not started, blocked in \<open><-lifetime.errCh\<close>, holding a
  received error, or returned.  The goroutine of \<open>handleShutdownSignals\<close>: not started,
  blocked in \<open><-signals\<close>, or blocked in \<open>lifetime.errCh <- ...\<close>.
\<close>

datatype disp_pc = DispNone | DispRecv | DispGot error | DispReturned

datatype lis_pc = LisNone | LisRecv | LisSend error

text \<open>
  The \<open>Lifetime\<close> struct and the process around it.  \<open>ctxDone\<close> is whether \<open>ctx\<close> is
  cancelled, \<open>serviceWg\<close> the counter of the wait group, \<open>signals\<close> the content of the
  channel of capacity one that \<open>signal.Notify\<close> fills, \<open>count\<close> the listener's counter,
  \<open>logged\<close> what \<open>log.Printf\<close> wrote, \<open>exited\<close> the status given to \<open>os.Exit\<close>.
  \<open>errCh\<close> is unbuffered: it holds nothing, a send on it is a step taken together
  with the receive.
\<close>

record lifetime =
  ctxDone :: bool
  serviceWg :: int
  services :: "service list"
  dispatcher :: disp_pc
  listener :: lis_pc
  count :: int
  signals :: "signal option"
  logged :: "error list"
  exited :: "int option"

text \<open>\<open>New\<close>: nothing is cancelled, no service is registered, no goroutine runs.\<close>

definition New :: lifetime where
  "New = \<lparr> ctxDone = False, serviceWg = 0, services = [], dispatcher = DispNone,
           listener = LisNone, count = 0, signals = None, logged = [], exited = None \<rparr>"

text \<open>\<open>Shutdown\<close> calls \<open>cancelFunc\<close>.\<close>

definition Shutdown :: "lifetime \<Rightarrow> lifetime" where
  "Shutdown s = s\<lparr> ctxDone := True \<rparr>"

text \<open>
  \<open>Wait\<close> is \<open>serviceWg.Wait()\<close>: it returns when the counter is zero and blocks
  (\<open>None\<close>) otherwise; in a process that has exited nothing returns.
\<close>

definition Wait :: "lifetime \<Rightarrow> lifetime option" where
  "Wait s = (if exited s = None \<and> serviceWg s = 0 then Some s else None)"

text \<open>\<open>Init\<close> starts the dispatcher and the listener.\<close>

definition Init :: "lifetime \<Rightarrow> lifetime" where
  "Init s = s\<lparr> dispatcher := DispRecv, listener := LisRecv \<rparr>"

text \<open>
  \<open>Start\<close> (the exported one) adds one to \<open>serviceWg\<close> and spawns \<open>start\<close> for the
  service, which becomes the last registered one.
\<close>

definition newService :: service where
  "newService = \<lparr> sup = SupEntry, starter = GoNone, startCalled = False,
                  startResult = None, stopCalls = 0, forwarded = [] \<rparr>"

definition Start :: "lifetime \<Rightarrow> lifetime" where
  "Start s = s\<lparr> serviceWg := serviceWg s + 1, services := services s @ [newService] \<rparr>"

text \<open>
  The first statement of the dispatcher's loop, \<open>err, ok := <-lifetime.errCh\<close> with the
  test of \<open>ok\<close>: the argument is \<open>None\<close> when the channel is closed (\<open>ok\<close> false).
\<close>

definition handleErrors_recv :: "error option \<Rightarrow> lifetime \<Rightarrow> lifetime" where
  "handleErrors_recv r s =
     (case r of
        None \<Rightarrow> (Shutdown s)\<lparr> dispatcher := DispReturned \<rparr>
      | Some err \<Rightarrow> s\<lparr> dispatcher := DispGot err \<rparr>)"

text \<open>The rest of the loop body, for the received error.\<close>

definition handleErrors_handle :: "error \<Rightarrow> lifetime \<Rightarrow> lifetime" where
  "handleErrors_handle err s =
     (if err = ErrImmediateShutdownSignalReceived then s\<lparr> exited := Some 1 \<rparr>
      else Shutdown (s\<lparr> logged := logged s @ [err], dispatcher := DispRecv \<rparr>))"

section \<open>The goroutines of one service\<close>

text \<open>
  Each function is one step of \<open>start\<close> or of its anonymous goroutine on the record of
  the service; \<open>None\<close> means that the goroutine is not at that statement, or is blocked
  there.  The wait group \<open>startWg\<close> is not stored: its counter is one from the spawn of
  the anonymous goroutine until that goroutine reaches \<open>GoExited\<close>, so \<open>startWg.Wait()\<close>
  returns exactly when \<open>starter\<close> is \<open>GoExited\<close>.
\<close>

text \<open>\<open>startWg.Add(1); go func() {...}()\<close>, then on to the \<open>select\<close>.\<close>

definition start_spawn :: "service \<Rightarrow> service option" where
  "start_spawn sv =
     (if sup sv = SupEntry then Some (sv\<lparr> sup := SupSelect, starter := GoSpawned \<rparr>)
      else None)"

text \<open>The anonymous goroutine calls \<open>svc.Start()\<close>.\<close>

definition go_call :: "service \<Rightarrow> service option" where
  "go_call sv =
     (if starter sv = GoSpawned then Some (sv\<lparr> starter := GoStart, startCalled := True \<rparr>)
      else None)"

text \<open>
  \<open>svc.Start()\<close> returns \<open>r\<close> (when, and what, is up to the service):
  \<open>if err != nil { startErrs <- err }\<close>.
\<close>

definition Start_returns :: "error option \<Rightarrow> service \<Rightarrow> service option" where
  "Start_returns r sv =
     (if starter sv = GoStart
      then Some (sv\<lparr> starter := (case r of None \<Rightarrow> GoDefer | Some e \<Rightarrow> GoSend e),
                     startResult := Some r \<rparr>)
      else None)"

text \<open>
  The \<open>select\<close> takes \<open>case startErr := <-startErrs\<close>: possible when the anonymous
  goroutine is blocked in its send, which completes.
\<close>

definition start_recv_err :: "service \<Rightarrow> service option" where
  "start_recv_err sv =
     (case (sup sv, starter sv) of
        (SupSelect, GoSend e) \<Rightarrow> Some (sv\<lparr> sup := SupForward e, starter := GoDefer \<rparr>)
      | _ \<Rightarrow> None)"

text \<open>
  The \<open>select\<close> takes \<open>case <-lifetime.ctx.Done()\<close>: possible when the context is
  cancelled (first argument); \<open>svc.Stop()\<close> is called.  When both cases of the \<open>select\<close>
  are ready Go takes either, so both steps are possible then.
\<close>

definition start_done :: "bool \<Rightarrow> service \<Rightarrow> service option" where
  "start_done cancelled sv =
     (if sup sv = SupSelect \<and> cancelled
      then Some (sv\<lparr> sup := SupStop, stopCalls := stopCalls sv + 1 \<rparr>)
      else None)"

text \<open>\<open>svc.Stop()\<close> returns (when is up to the service); on to \<open>startWg.Wait()\<close>.\<close>

definition Stop_returns :: "service \<Rightarrow> service option" where
  "Stop_returns sv = (if sup sv = SupStop then Some (sv\<lparr> sup := SupWait \<rparr>) else None)"

text \<open>The deferred \<open>startWg.Done()\<close> of the anonymous goroutine.\<close>

definition go_exit :: "service \<Rightarrow> service option" where
  "go_exit sv = (if starter sv = GoDefer then Some (sv\<lparr> starter := GoExited \<rparr>) else None)"

text \<open>\<open>startWg.Wait()\<close> returns and \<open>start\<close> returns.\<close>

definition start_wait_done :: "service \<Rightarrow> service option" where
  "start_wait_done sv =
     (if sup sv = SupWait \<and> starter sv = GoExited then Some (sv\<lparr> sup := SupExited \<rparr>)
      else None)"

text \<open>
  \<open>lifetime.errCh <- startErr\<close> completes (the dispatcher takes the error, which is
  returned with the new record).
\<close>

definition start_send :: "service \<Rightarrow> (error \<times> service) option" where
  "start_send sv =
     (case sup sv of
        SupForward e \<Rightarrow> Some (e, sv\<lparr> sup := SupReturn, forwarded := forwarded sv @ [e] \<rparr>)
      | _ \<Rightarrow> None)"

text \<open>\<open>start\<close> returns after the send.\<close>

definition start_exit :: "service \<Rightarrow> service option" where
  "start_exit sv = (if sup sv = SupReturn then Some (sv\<lparr> sup := SupExited \<rparr>) else None)"

section \<open>The steps of the process\<close>

text \<open>
  What can happen, one event at a time.  The first group is the caller and the operating
  system: \<open>Init\<close>, \<open>Start\<close>, \<open>Shutdown\<close>, the cancellation of the parent context given to
  \<open>New\<close>, the delivery of a signal.  The second is the behaviour of service number \<open>i\<close>
  (in order of registration): its \<open>Start\<close> returns a result, its \<open>Stop\<close> returns.  The
  rest are the steps of the package's own goroutines.
\<close>

datatype event =
    EvInit | EvStart | EvShutdown | EvParentCancel | EvSignal signal
  | EvStartReturns nat "error option" | EvStopReturns nat
  | EvSupSpawn nat | EvGoCall nat | EvSupRecvErr nat | EvSupDone nat
  | EvGoExit nat | EvSupWaitDone nat | EvSupSend nat | EvSupExit nat
  | EvLisRecv | EvLisSend | EvDispHandle

text \<open>A step of service \<open>i\<close> that touches nothing but its record.\<close>

definition on_service :: "nat \<Rightarrow> (service \<Rightarrow> service option) \<Rightarrow> lifetime \<Rightarrow> lifetime option" where
  "on_service i f s =
     (if i < length (services s)
      then (case f (services s ! i) of
              None \<Rightarrow> None
            | Some sv \<Rightarrow> Some (s\<lparr> services := (services s)[i := sv] \<rparr>))
      else None)"

text \<open>
  The deferred \<open>lifetime.serviceWg.Done()\<close> of \<open>start\<close>.  (\<open>Done\<close> panics on a
  counter that would become negative; by \<open>lifetime_inv\<close> below the counter is the number
  of tasks that have not returned, so that does not happen.)
\<close>

definition wgDone :: "lifetime \<Rightarrow> lifetime" where
  "wgDone s = s\<lparr> serviceWg := serviceWg s - 1 \<rparr>"

text \<open>
  A goroutine panics and nothing recovers: the process ends with status 2.
\<close>

definition panic :: "lifetime \<Rightarrow> lifetime" where
  "panic s = s\<lparr> exited := Some 2 \<rparr>"

text \<open>
  \<open>step ev s\<close> is the state after event \<open>ev\<close>, or \<open>None\<close> when \<open>ev\<close> cannot happen in
  \<open>s\<close>.  After \<open>os.Exit\<close> nothing happens.  \<open>Init\<close> is taken to be called at most once.
  \<open>signal.Notify\<close> does not block: a signal that finds the channel full is dropped.
  A send on \<open>errCh\<close> completes when the dispatcher is receiving, and blocks while the
  dispatcher handles an error or does not run.  The dispatcher returns only when it has
  found \<open>errCh\<close> closed, and a send on a closed channel panics.
\<close>

definition step :: "event \<Rightarrow> lifetime \<Rightarrow> lifetime option" where
  "step ev s =
     (if exited s \<noteq> None then None
      else case ev of
        EvInit \<Rightarrow> if dispatcher s = DispNone then Some (Init s) else None
      | EvStart \<Rightarrow> Some (Start s)
      | EvShutdown \<Rightarrow> Some (Shutdown s)
      | EvParentCancel \<Rightarrow> Some (s\<lparr> ctxDone := True \<rparr>)
      | EvSignal sig \<Rightarrow>
          if listener s = LisNone then None
          else if signals s = None then Some (s\<lparr> signals := Some sig \<rparr>)
          else Some s
      | EvStartReturns i r \<Rightarrow> on_service i (Start_returns r) s
      | EvStopReturns i \<Rightarrow> on_service i Stop_returns s
      | EvSupSpawn i \<Rightarrow> on_service i start_spawn s
      | EvGoCall i \<Rightarrow> on_service i go_call s
      | EvSupRecvErr i \<Rightarrow> on_service i start_recv_err s
      | EvSupDone i \<Rightarrow> on_service i (start_done (ctxDone s)) s
      | EvGoExit i \<Rightarrow> on_service i go_exit s
      | EvSupWaitDone i \<Rightarrow> map_option wgDone (on_service i start_wait_done s)
      | EvSupSend i \<Rightarrow>
          if i < length (services s)
          then (case start_send (services s ! i) of
                  None \<Rightarrow> None
                | Some (e, sv) \<Rightarrow>
                    (case dispatcher s of
                       DispRecv \<Rightarrow>
                         Some (handleErrors_recv (Some e)
                                 (s\<lparr> services := (services s)[i := sv] \<rparr>))
                     | DispReturned \<Rightarrow> Some (panic s)
                     | _ \<Rightarrow> None))
          else None
      | EvSupExit i \<Rightarrow> map_option wgDone (on_service i start_exit s)
      | EvLisRecv \<Rightarrow>
          (case (listener s, signals s) of
             (LisRecv, Some sig) \<Rightarrow>
               (let (c, e) = handleShutdownSignals_body sig (count s)
                in Some (s\<lparr> signals := None, count := c, listener := LisSend e \<rparr>))
           | _ \<Rightarrow> None)
      | EvLisSend \<Rightarrow>
          (case listener s of
             LisSend e \<Rightarrow>
               (case dispatcher s of
                  DispRecv \<Rightarrow> Some (handleErrors_recv (Some e) (s\<lparr> listener := LisRecv \<rparr>))
                | DispReturned \<Rightarrow> Some (panic s)
                | _ \<Rightarrow> None)
           | _ \<Rightarrow> None)
      | EvDispHandle \<Rightarrow>
          (case dispatcher s of
             DispGot e \<Rightarrow> Some (handleErrors_handle e s)
           | _ \<Rightarrow> None))"

text \<open>A run: the events of a list one after the other, \<open>None\<close> if one cannot happen.\<close>

fun run :: "event list \<Rightarrow> lifetime \<Rightarrow> lifetime option" where
  "run [] s = Some s"
| "run (ev # evs) s = (case step ev s of None \<Rightarrow> None | Some s' \<Rightarrow> run evs s')"

text \<open>
  The steps of the package's own goroutines possible on the services registered in \<open>s\<close>,
  and the states in which none of them can be taken: every goroutine of the package is
  blocked or has returned, and only the caller, a signal or a service can move things on.
\<close>

definition service_events :: "nat \<Rightarrow> event list" where
  "service_events i =
     [EvSupSpawn i, EvGoCall i, EvSupRecvErr i, EvSupDone i, EvGoExit i, EvSupWaitDone i,
      EvSupSend i, EvSupExit i]"

definition internal_events :: "lifetime \<Rightarrow> event list" where
  "internal_events s =
     [EvLisRecv, EvLisSend, EvDispHandle] @ concat (map service_events [0..<length (services s)])"

definition quiescent :: "lifetime \<Rightarrow> bool" where
  "quiescent s = (\<forall>ev \<in> set (internal_events s). step ev s = None)"

section \<open>Invariants\<close>

text \<open>
  What the record of a service looks like at each statement of its anonymous goroutine:
  whether \<open>svc.Start()\<close> was called and what it returned.
\<close>

definition go_inv :: "service \<Rightarrow> bool" where
  "go_inv sv =
     (case starter sv of
        GoNone \<Rightarrow> \<not> startCalled sv \<and> startResult sv = None
      | GoSpawned \<Rightarrow> \<not> startCalled sv \<and> startResult sv = None
      | GoStart \<Rightarrow> startCalled sv \<and> startResult sv = None
      | GoSend e \<Rightarrow> startCalled sv \<and> startResult sv = Some (Some e)
      | GoDefer \<Rightarrow> startCalled sv \<and> startResult sv \<noteq> None
      | GoExited \<Rightarrow> startCalled sv \<and> startResult sv \<noteq> None)"

definition returned_go :: "go_pc \<Rightarrow> bool" where
  "returned_go g = (g = GoDefer \<or> g = GoExited)"

text \<open>
  The result of \<open>svc.Start()\<close> is the error \<open>e\<close> and the supervisory task has handed
  exactly that error to \<open>errCh\<close>.
\<close>

definition forwarded_failure :: "service \<Rightarrow> bool" where
  "forwarded_failure sv =
     (case startResult sv of Some (Some e) \<Rightarrow> forwarded sv = [e] | _ \<Rightarrow> False)"

text \<open>
  What the record looks like at each statement of \<open>start\<close>; the first argument is
  whether the context is cancelled.
\<close>

definition svc_inv :: "bool \<Rightarrow> service \<Rightarrow> bool" where
  "svc_inv cancelled sv =
     (go_inv sv \<and>
      (case sup sv of
         SupEntry \<Rightarrow> starter sv = GoNone \<and> stopCalls sv = 0 \<and> forwarded sv = []
       | SupSelect \<Rightarrow>
           starter sv \<noteq> GoNone \<and> stopCalls sv = 0 \<and> forwarded sv = [] \<and>
           (returned_go (starter sv) \<longrightarrow> startResult sv = Some None)
       | SupForward e \<Rightarrow>
           returned_go (starter sv) \<and> startResult sv = Some (Some e) \<and>
           stopCalls sv = 0 \<and> forwarded sv = []
       | SupStop \<Rightarrow>
           cancelled \<and> starter sv \<noteq> GoNone \<and> stopCalls sv = 1 \<and> forwarded sv = [] \<and>
           (returned_go (starter sv) \<longrightarrow> startResult sv = Some None)
       | SupWait \<Rightarrow>
           cancelled \<and> starter sv \<noteq> GoNone \<and> stopCalls sv = 1 \<and> forwarded sv = [] \<and>
           (returned_go (starter sv) \<longrightarrow> startResult sv = Some None)
       | SupReturn \<Rightarrow>
           returned_go (starter sv) \<and> stopCalls sv = 0 \<and> forwarded_failure sv
       | SupExited \<Rightarrow>
           (if stopCalls sv = 0 then returned_go (starter sv) \<and> forwarded_failure sv
            else cancelled \<and> stopCalls sv = 1 \<and> forwarded sv = [] \<and>
                 starter sv = GoExited \<and> startResult sv = Some None)))"

text \<open>A service counts in \<open>serviceWg\<close> until its \<open>start\<close> has returned.\<close>

definition live :: "service \<Rightarrow> nat" where
  "live sv = (if sup sv = SupExited then 0 else 1)"

text \<open>
  The listener's counter: a second signal makes the listener send the immediate error,
  the dispatcher exits the process when it has taken it, so the counter stays small.
  The arguments are the listener, the dispatcher, the counter and whether the process
  has exited.
\<close>

definition imm_pending :: "disp_pc \<Rightarrow> bool \<Rightarrow> bool" where
  "imm_pending d ex = (d = DispGot ErrImmediateShutdownSignalReceived \<or> ex)"

definition count_ok :: "lis_pc \<Rightarrow> disp_pc \<Rightarrow> int \<Rightarrow> bool \<Rightarrow> bool" where
  "count_ok l d c ex =
     (case l of
        LisNone \<Rightarrow> c = 0 \<and> d = DispNone
      | LisRecv \<Rightarrow> d \<noteq> DispNone \<and> 0 \<le> c \<and> c \<le> 2 \<and> (c = 2 \<longrightarrow> imm_pending d ex)
      | LisSend e \<Rightarrow>
          d \<noteq> DispNone \<and> 1 \<le> c \<and> c \<le> 3 \<and>
          (2 \<le> c \<longrightarrow> e = ErrImmediateShutdownSignalReceived) \<and>
          (c = 3 \<longrightarrow> imm_pending d ex))"

definition count_inv :: "lifetime \<Rightarrow> bool" where
  "count_inv s = count_ok (listener s) (dispatcher s) (count s) (exited s \<noteq> None)"

definition is_got :: "disp_pc \<Rightarrow> bool" where
  "is_got d = (case d of DispGot e \<Rightarrow> True | _ \<Rightarrow> False)"

definition lifetime_inv :: "lifetime \<Rightarrow> bool" where
  "lifetime_inv s =
     ((\<forall>sv \<in> set (services s). svc_inv (ctxDone s) sv) \<and>
      serviceWg s = int (sum_list (map live (services s))) \<and>
      dispatcher s \<noteq> DispReturned \<and>
      count_inv s \<and>
      (\<forall>sv \<in> set (services s).
         forwarded sv \<noteq> [] \<longrightarrow> ctxDone s \<or> exited s \<noteq> None \<or> is_got (dispatcher s)))"

section \<open>Progress\<close>


fun sup_rank :: "sup_pc \<Rightarrow> nat" where
  "sup_rank SupEntry = 9"
| "sup_rank SupSelect = 4"
| "sup_rank (SupForward e) = 3"
| "sup_rank SupStop = 3"
| "sup_rank SupWait = 1"
| "sup_rank SupReturn = 1"
| "sup_rank SupExited = 0"

fun go_rank :: "go_pc \<Rightarrow> nat" where
  "go_rank GoNone = 4"
| "go_rank GoSpawned = 4"
| "go_rank GoStart = 3"
| "go_rank (GoSend e) = 2"
| "go_rank GoDefer = 1"
| "go_rank GoExited = 0"

definition svc_rank :: "service \<Rightarrow> nat" where
  "svc_rank sv = sup_rank (sup sv) + go_rank (starter sv)"




section \<open>Some runs\<close>

text \<open>
  One service whose \<open>Start\<close> fails at once (the address is taken): the error goes
  through \<open>startErrs\<close> and \<open>errCh\<close> and \<open>start\<close> returns.
\<close>

definition startup_failure_run :: "event list" where
  "startup_failure_run =
     [EvInit, EvStart, EvSupSpawn 0, EvGoCall 0,
      EvStartReturns 0 (Some (ErrOther ''listen tcp :80: bind: address already in use'')),
      EvSupRecvErr 0, EvSupSend 0, EvSupExit 0]"

text \<open>
  One service stopped by \<open>Shutdown\<close>: \<open>Stop\<close> is called and returns, \<open>Start\<close> returns
  \<open>nil\<close>, \<open>start\<close> returns.
\<close>

definition clean_stop_run :: "event list" where
  "clean_stop_run =
     [EvInit, EvStart, EvSupSpawn 0, EvGoCall 0, EvShutdown, EvSupDone 0, EvStopReturns 0,
      EvStartReturns 0 None, EvGoExit 0, EvSupWaitDone 0]"

text \<open>
  One service whose \<open>Start\<close> fails just after \<open>Shutdown\<close> was called, the \<open>select\<close>
  of \<open>start\<close> taking the cancellation.
\<close>

definition failure_after_cancel_run :: "event list" where
  "failure_after_cancel_run =
     [EvInit, EvStart, EvSupSpawn 0, EvGoCall 0, EvShutdown,
      EvStartReturns 0 (Some (ErrOther ''listen tcp :80: bind: address already in use'')),
      EvSupDone 0, EvStopReturns 0]"

text \<open>
  Two services; \<open>Start\<close> of the first fails, the dispatcher cancels, \<open>Stop\<close> of the
  second is called.
\<close>

definition failure_stops_other_run :: "event list" where
  "failure_stops_other_run =
     [EvInit, EvStart, EvStart, EvSupSpawn 0, EvSupSpawn 1, EvGoCall 0, EvGoCall 1,
      EvStartReturns 0 (Some (ErrOther ''listen tcp :80: bind: address already in use'')),
      EvSupRecvErr 0, EvGoExit 0, EvSupSend 0, EvSupExit 0, EvDispHandle, EvSupDone 1]"

text \<open>
  One service whose \<open>Start\<close> returns \<open>nil\<close> by itself; later \<open>Shutdown\<close> is called.
\<close>

definition self_terminated_run :: "event list" where
  "self_terminated_run =
     [EvInit, EvStart, EvSupSpawn 0, EvGoCall 0, EvStartReturns 0 None, EvGoExit 0]"

text \<open>
  The two goroutines of a service waiting for each other: \<open>start\<close> has taken the
  cancellation (it is in \<open>svc.Stop()\<close> or in \<open>startWg.Wait()\<close>) while the anonymous
  goroutine is blocked in \<open>startErrs <- err\<close> with the error \<open>e\<close>, which nobody has
  received.
\<close>

definition start_deadlock :: "error \<Rightarrow> service \<Rightarrow> bool" where
  "start_deadlock e sv =
     ((sup sv = SupStop \<or> sup sv = SupWait) \<and> starter sv = GoSend e \<and> forwarded sv = [])"

text \<open>
  One service and two signals: the first signal is handled (the context is cancelled and
  \<open>Stop\<close> is called, which does not return yet), then a second signal is taken by the
  dispatcher.
\<close>

definition first_signal_run :: "event list" where
  "first_signal_run =
     [EvInit, EvStart, EvSupSpawn 0, EvGoCall 0, EvSignal SIGINT, EvLisRecv, EvLisSend]"

definition second_signal_run :: "event list" where
  "second_signal_run =
     first_signal_run @ [EvDispHandle, EvSupDone 0, EvSignal SIGTERM, EvLisRecv, EvLisSend]"




section \<open>The invariants hold in every state the process can reach\<close>

text \<open>
  Each step of a goroutine of a service keeps \<open>svc_inv\<close>; the steps of the process keep
  \<open>lifetime_inv\<close>, which holds for \<open>New\<close>.
\<close>

lemmas local_defs = start_spawn_def go_call_def Start_returns_def start_recv_err_def start_done_def
  Stop_returns_def go_exit_def start_wait_done_def start_send_def start_exit_def

lemmas inv_defs = svc_inv_def go_inv_def returned_go_def forwarded_failure_def

lemma svc_inv_mono: "svc_inv c sv \<Longrightarrow> svc_inv True sv"
  by (cases "sup sv") (auto simp: svc_inv_def split: if_splits)

lemma svc_inv_new: "svc_inv c newService"
  by (simp add: inv_defs newService_def)

lemma svc_inv_start_spawn: "svc_inv c sv \<Longrightarrow> start_spawn sv = Some sv' \<Longrightarrow> svc_inv c sv'"
  by (cases "sup sv") (auto simp: inv_defs local_defs)

lemma svc_inv_go_call: "svc_inv c sv \<Longrightarrow> go_call sv = Some sv' \<Longrightarrow> svc_inv c sv'"
  by (cases "starter sv"; cases "sup sv") (auto simp: inv_defs local_defs)

lemma svc_inv_Start_returns: "svc_inv c sv \<Longrightarrow> Start_returns r sv = Some sv' \<Longrightarrow> svc_inv c sv'"
  by (cases "starter sv"; cases "sup sv"; cases r) (auto simp: inv_defs local_defs)

lemma svc_inv_start_recv_err: "svc_inv c sv \<Longrightarrow> start_recv_err sv = Some sv' \<Longrightarrow> svc_inv c sv'"
  by (cases "starter sv"; cases "sup sv") (auto simp: inv_defs local_defs)

lemma svc_inv_start_done: "svc_inv c sv \<Longrightarrow> start_done c sv = Some sv' \<Longrightarrow> svc_inv c sv'"
  by (cases "starter sv"; cases "sup sv"; cases c) (auto simp: inv_defs local_defs)

lemma svc_inv_Stop_returns: "svc_inv c sv \<Longrightarrow> Stop_returns sv = Some sv' \<Longrightarrow> svc_inv c sv'"
  by (cases "starter sv"; cases "sup sv") (auto simp: inv_defs local_defs)

lemma svc_inv_go_exit: "svc_inv c sv \<Longrightarrow> go_exit sv = Some sv' \<Longrightarrow> svc_inv c sv'"
  by (cases "starter sv"; cases "sup sv") (auto simp: inv_defs local_defs split: if_splits option.splits)

lemma svc_inv_start_wait_done: "svc_inv c sv \<Longrightarrow> start_wait_done sv = Some sv' \<Longrightarrow> svc_inv c sv'"
  by (cases "starter sv"; cases "sup sv") (auto simp: inv_defs local_defs)

lemma svc_inv_start_send: "svc_inv c sv \<Longrightarrow> start_send sv = Some (e, sv') \<Longrightarrow> svc_inv c sv'"
  by (cases "starter sv"; cases "sup sv") (auto simp: inv_defs local_defs)

lemma svc_inv_start_exit: "svc_inv c sv \<Longrightarrow> start_exit sv = Some sv' \<Longrightarrow> svc_inv c sv'"
  by (cases "starter sv"; cases "sup sv") (auto simp: inv_defs local_defs split: if_splits option.splits)

lemma sum_list_map_update:
  "i < length xs \<Longrightarrow>
   sum_list (map f (xs[i := v])) + f (xs ! i) = sum_list (map f xs) + (f v :: nat)"
proof (induction xs arbitrary: i)
  case Nil
  then show ?case by simp
next
  case (Cons x xs)
  then show ?case by (cases i) auto
qed

lemma nth_le_sum_list_map: "i < length xs \<Longrightarrow> (f (xs ! i) :: nat) \<le> sum_list (map f xs)"
  using elem_le_sum_list [of i "map f xs"] by simp

lemma set_update_ball:
  "\<forall>x \<in> set xs. P x \<Longrightarrow> P v \<Longrightarrow> \<forall>x \<in> set (xs[i := v]). P x"
  using set_update_subset_insert [of xs i v] by auto

lemma on_service_Some:
  "on_service i f s = Some s' \<Longrightarrow>
   \<exists>sv'. i < length (services s) \<and> f (services s ! i) = Some sv' \<and>
         s' = s\<lparr> services := (services s)[i := sv'] \<rparr>"
  by (auto simp: on_service_def split: if_splits option.splits)

lemma inv_services_update:
  assumes "lifetime_inv s" and "i < length (services s)"
    and "svc_inv (ctxDone s) sv'"
    and "forwarded sv' \<noteq> [] \<longrightarrow> forwarded (services s ! i) \<noteq> []"
    and "live sv' = live (services s ! i)"
  shows "lifetime_inv (s\<lparr> services := (services s)[i := sv'] \<rparr>)"
proof -
  have old: "services s ! i \<in> set (services s)" using assms(2) by simp
  have a: "\<forall>sv \<in> set ((services s)[i := sv']). svc_inv (ctxDone s) sv"
    using assms(1,3) by (intro set_update_ball) (simp_all add: lifetime_inv_def)
  have b: "sum_list (map live ((services s)[i := sv'])) = sum_list (map live (services s))"
    using sum_list_map_update [OF assms(2), of live sv'] assms(5) by simp
  have c: "\<forall>sv \<in> set ((services s)[i := sv']).
             forwarded sv \<noteq> [] \<longrightarrow> ctxDone s \<or> exited s \<noteq> None \<or> is_got (dispatcher s)"
    using assms(1,4) old by (intro set_update_ball) (auto simp: lifetime_inv_def)
  from a b c assms(1) show ?thesis
    by (simp add: lifetime_inv_def count_inv_def)
qed

lemma inv_services_exit:
  assumes "lifetime_inv s" and "i < length (services s)"
    and "svc_inv (ctxDone s) sv'"
    and "forwarded sv' \<noteq> [] \<longrightarrow> forwarded (services s ! i) \<noteq> []"
    and "live (services s ! i) = 1" and "live sv' = 0"
  shows "lifetime_inv (wgDone (s\<lparr> services := (services s)[i := sv'] \<rparr>))"
proof -
  have old: "services s ! i \<in> set (services s)" using assms(2) by simp
  have a: "\<forall>sv \<in> set ((services s)[i := sv']). svc_inv (ctxDone s) sv"
    using assms(1,3) by (intro set_update_ball) (simp_all add: lifetime_inv_def)
  have b: "sum_list (map live ((services s)[i := sv'])) + 1 = sum_list (map live (services s))"
    using sum_list_map_update [OF assms(2), of live sv'] assms(5,6) by simp
  have c: "\<forall>sv \<in> set ((services s)[i := sv']).
             forwarded sv \<noteq> [] \<longrightarrow> ctxDone s \<or> exited s \<noteq> None \<or> is_got (dispatcher s)"
    using assms(1,4) old by (intro set_update_ball) (auto simp: lifetime_inv_def)
  have "serviceWg s - 1 = int (sum_list (map live ((services s)[i := sv'])))"
    using assms(1) b by (simp add: lifetime_inv_def)
  with a c assms(1) show ?thesis
    by (simp add: lifetime_inv_def count_inv_def wgDone_def)
qed

lemma inv_nth: "lifetime_inv s \<Longrightarrow> i < length (services s) \<Longrightarrow> svc_inv (ctxDone s) (services s ! i)"
  by (simp add: lifetime_inv_def)

lemma inv_not_returned: "lifetime_inv s \<Longrightarrow> dispatcher s \<noteq> DispReturned"
  by (simp add: lifetime_inv_def)

lemma inv_New: "lifetime_inv New"
  by (simp add: lifetime_inv_def New_def count_inv_def count_ok_def)

lemma live_simps:
  "live (sv\<lparr> starter := g \<rparr>) = live sv"
  "live (sv\<lparr> startCalled := b \<rparr>) = live sv"
  "live (sv\<lparr> startResult := r \<rparr>) = live sv"
  "live (sv\<lparr> stopCalls := n \<rparr>) = live sv"
  "live (sv\<lparr> forwarded := es \<rparr>) = live sv"
  "live (sv\<lparr> sup := p \<rparr>) = (if p = SupExited then 0 else 1)"
  by (simp_all add: live_def)

lemma inv_local_step:
  assumes inv: "lifetime_inv s" and st: "on_service i f s = Some s'"
    and pres: "\<And>sv sv'. svc_inv (ctxDone s) sv \<Longrightarrow> f sv = Some sv' \<Longrightarrow>
                 svc_inv (ctxDone s) sv' \<and> forwarded sv' = forwarded sv \<and> live sv' = live sv"
  shows "lifetime_inv s'"
proof -
  from on_service_Some [OF st] obtain sv' where
    i: "i < length (services s)" and f: "f (services s ! i) = Some sv'"
    and s': "s' = s\<lparr> services := (services s)[i := sv'] \<rparr>" by blast
  from pres [OF inv_nth [OF inv i] f] inv i show ?thesis
    unfolding s' by (intro inv_services_update) simp_all
qed

lemma inv_exit_step:
  assumes inv: "lifetime_inv s" and st: "on_service i f s = Some s'"
    and pres: "\<And>sv sv'. svc_inv (ctxDone s) sv \<Longrightarrow> f sv = Some sv' \<Longrightarrow>
                 svc_inv (ctxDone s) sv' \<and> forwarded sv' = forwarded sv \<and> live sv = 1 \<and> live sv' = 0"
  shows "lifetime_inv (wgDone s')"
proof -
  from on_service_Some [OF st] obtain sv' where
    i: "i < length (services s)" and f: "f (services s ! i) = Some sv'"
    and s': "s' = s\<lparr> services := (services s)[i := sv'] \<rparr>" by blast
  from pres [OF inv_nth [OF inv i] f] inv i show ?thesis
    unfolding s' by (intro inv_services_exit) simp_all
qed

lemma inv_cancel: "lifetime_inv s \<Longrightarrow> lifetime_inv (s\<lparr> ctxDone := True \<rparr>)"
  by (auto simp: lifetime_inv_def count_inv_def intro: svc_inv_mono)

lemma newService_simps: "live newService = 1" "forwarded newService = []"
  by (simp_all add: live_def newService_def)

lemma inv_Start: "lifetime_inv s \<Longrightarrow> lifetime_inv (Start s)"
  by (auto simp: lifetime_inv_def count_inv_def Start_def svc_inv_new newService_simps)

lemma inv_Init: "lifetime_inv s \<Longrightarrow> dispatcher s = DispNone \<Longrightarrow> lifetime_inv (Init s)"
  by (cases "listener s") (auto simp: lifetime_inv_def count_inv_def count_ok_def Init_def is_got_def)

lemma inv_signal: "lifetime_inv s \<Longrightarrow> lifetime_inv (s\<lparr> signals := x \<rparr>)"
  by (simp add: lifetime_inv_def count_inv_def)

lemma inv_lis_recv:
  assumes "lifetime_inv s" and "listener s = LisRecv" and "handleShutdownSignals_body sig (count s) = (c, e)"
  shows "lifetime_inv (s\<lparr> signals := None, count := c, listener := LisSend e \<rparr>)"
  using assms
  by (auto simp: lifetime_inv_def count_inv_def count_ok_def handleShutdownSignals_body_def Let_def)

lemma inv_lis_send:
  assumes "lifetime_inv s" and "listener s = LisSend e" and "dispatcher s = DispRecv"
    and "exited s = None"
  shows "lifetime_inv (handleErrors_recv (Some e) (s\<lparr> listener := LisRecv \<rparr>))"
  using assms
  by (auto simp: lifetime_inv_def count_inv_def count_ok_def handleErrors_recv_def
      imm_pending_def is_got_def)

lemma inv_disp_handle:
  assumes "lifetime_inv s" and "dispatcher s = DispGot e"
  shows "lifetime_inv (handleErrors_handle e s)"
proof (cases "e = ErrImmediateShutdownSignalReceived")
  case True
  with assms show ?thesis
    by (cases "listener s")
       (auto simp: lifetime_inv_def count_inv_def count_ok_def handleErrors_handle_def
          imm_pending_def)
next
  case False
  with assms show ?thesis
    by (cases "listener s")
       (auto simp: lifetime_inv_def count_inv_def count_ok_def handleErrors_handle_def
          imm_pending_def Shutdown_def intro: svc_inv_mono)
qed

lemma inv_start_send:
  assumes inv: "lifetime_inv s" and i: "i < length (services s)"
    and d: "dispatcher s = DispRecv" and ex: "exited s = None"
    and f: "start_send (services s ! i) = Some (e, sv')"
  shows "lifetime_inv (handleErrors_recv (Some e) (s\<lparr> services := (services s)[i := sv'] \<rparr>))"
proof -
  let ?xs = "(services s)[i := sv']"
  have sv': "svc_inv (ctxDone s) sv'"
    using svc_inv_start_send [OF inv_nth [OF inv i] f] .
  have lv: "live sv' = live (services s ! i)"
    using f by (auto simp: start_send_def live_def split: sup_pc.splits)
  have a: "\<forall>sv \<in> set ?xs. svc_inv (ctxDone s) sv"
    using inv sv' by (intro set_update_ball) (simp_all add: lifetime_inv_def)
  have b: "sum_list (map live ?xs) = sum_list (map live (services s))"
    using sum_list_map_update [OF i, of live sv'] lv by simp
  have c: "count_ok (listener s) (DispGot e) (count s) False"
    using inv d ex by (cases "listener s") (auto simp: lifetime_inv_def count_inv_def
        count_ok_def imm_pending_def)
  from a b c inv show ?thesis
    by (simp add: lifetime_inv_def count_inv_def handleErrors_recv_def is_got_def ex)
qed

lemma inv_step: "lifetime_inv s \<Longrightarrow> step ev s = Some s' \<Longrightarrow> lifetime_inv s'"
proof (cases ev)
  case EvInit
  assume "lifetime_inv s" "step ev s = Some s'"
  with EvInit show ?thesis by (auto simp: step_def inv_Init split: if_splits)
next
  case EvStart
  assume "lifetime_inv s" "step ev s = Some s'"
  with EvStart show ?thesis by (auto simp: step_def inv_Start split: if_splits)
next
  case EvShutdown
  assume "lifetime_inv s" "step ev s = Some s'"
  with EvShutdown show ?thesis by (auto simp: step_def Shutdown_def inv_cancel split: if_splits)
next
  case EvParentCancel
  assume "lifetime_inv s" "step ev s = Some s'"
  with EvParentCancel show ?thesis by (auto simp: step_def inv_cancel split: if_splits)
next
  case (EvSignal sig)
  assume "lifetime_inv s" "step ev s = Some s'"
  with EvSignal show ?thesis by (auto simp: step_def inv_signal split: if_splits)
next
  case (EvStartReturns i r)
  assume inv: "lifetime_inv s" and "step ev s = Some s'"
  with EvStartReturns have "on_service i (Start_returns r) s = Some s'"
    by (simp add: step_def split: if_splits)
  with inv show ?thesis
    by (rule inv_local_step)
       (auto simp: svc_inv_Start_returns, auto simp: Start_returns_def live_simps split: if_splits)
next
  case (EvStopReturns i)
  assume inv: "lifetime_inv s" and "step ev s = Some s'"
  with EvStopReturns have "on_service i Stop_returns s = Some s'"
    by (simp add: step_def split: if_splits)
  with inv show ?thesis
    by (rule inv_local_step)
       (auto simp: svc_inv_Stop_returns, auto simp: Stop_returns_def live_def split: if_splits)
next
  case (EvSupSpawn i)
  assume inv: "lifetime_inv s" and "step ev s = Some s'"
  with EvSupSpawn have "on_service i start_spawn s = Some s'"
    by (simp add: step_def split: if_splits)
  with inv show ?thesis
    by (rule inv_local_step)
       (auto simp: svc_inv_start_spawn, auto simp: start_spawn_def live_def split: if_splits)
next
  case (EvGoCall i)
  assume inv: "lifetime_inv s" and "step ev s = Some s'"
  with EvGoCall have "on_service i go_call s = Some s'"
    by (simp add: step_def split: if_splits)
  with inv show ?thesis
    by (rule inv_local_step)
       (auto simp: svc_inv_go_call, auto simp: go_call_def live_simps split: if_splits)
next
  case (EvSupRecvErr i)
  assume inv: "lifetime_inv s" and "step ev s = Some s'"
  with EvSupRecvErr have "on_service i start_recv_err s = Some s'"
    by (simp add: step_def split: if_splits)
  with inv show ?thesis
    by (rule inv_local_step)
       (auto simp: svc_inv_start_recv_err,
        auto simp: start_recv_err_def live_def split: if_splits sup_pc.splits go_pc.splits)
next
  case (EvSupDone i)
  assume inv: "lifetime_inv s" and "step ev s = Some s'"
  with EvSupDone have "on_service i (start_done (ctxDone s)) s = Some s'"
    by (simp add: step_def split: if_splits)
  with inv show ?thesis
    by (rule inv_local_step)
       (auto simp: svc_inv_start_done, auto simp: start_done_def live_def split: if_splits)
next
  case (EvGoExit i)
  assume inv: "lifetime_inv s" and "step ev s = Some s'"
  with EvGoExit have "on_service i go_exit s = Some s'"
    by (simp add: step_def split: if_splits)
  with inv show ?thesis
    by (rule inv_local_step)
       (auto simp: svc_inv_go_exit, auto simp: go_exit_def live_simps split: if_splits)
next
  case (EvSupWaitDone i)
  assume inv: "lifetime_inv s" and "step ev s = Some s'"
  with EvSupWaitDone obtain s1 where s1: "on_service i start_wait_done s = Some s1"
    and s': "s' = wgDone s1"
    by (auto simp: step_def split: if_splits)
  from inv s1 show ?thesis unfolding s'
    by (rule inv_exit_step)
       (auto simp: svc_inv_start_wait_done, auto simp: start_wait_done_def live_def split: if_splits)
next
  case (EvSupSend i)
  assume inv: "lifetime_inv s" and "step ev s = Some s'"
  with EvSupSend inv_not_returned [OF inv] show ?thesis
    by (cases "dispatcher s")
       (auto simp: step_def inv_start_send split: if_splits option.splits)
next
  case (EvSupExit i)
  assume inv: "lifetime_inv s" and "step ev s = Some s'"
  with EvSupExit obtain s1 where s1: "on_service i start_exit s = Some s1"
    and s': "s' = wgDone s1"
    by (auto simp: step_def split: if_splits)
  from inv s1 show ?thesis unfolding s'
    by (rule inv_exit_step)
       (auto simp: svc_inv_start_exit, auto simp: start_exit_def live_def split: if_splits)
next
  case EvLisRecv
  assume inv: "lifetime_inv s" and "step ev s = Some s'"
  with EvLisRecv show ?thesis
    by (auto simp: step_def inv_lis_recv split: if_splits lis_pc.splits option.splits prod.splits)
next
  case EvLisSend
  assume inv: "lifetime_inv s" and "step ev s = Some s'"
  with EvLisSend inv_not_returned [OF inv] show ?thesis
    by (cases "dispatcher s")
       (auto simp: step_def inv_lis_send split: if_splits lis_pc.splits)
next
  case EvDispHandle
  assume inv: "lifetime_inv s" and "step ev s = Some s'"
  with EvDispHandle show ?thesis
    by (auto simp: step_def inv_disp_handle split: if_splits disp_pc.splits)
qed

lemma inv_run: "lifetime_inv s \<Longrightarrow> run evs s = Some s' \<Longrightarrow> lifetime_inv s'"
  by (induction evs arbitrary: s) (auto split: option.splits dest: inv_step)

lemma inv_reachable: "run evs New = Some s \<Longrightarrow> lifetime_inv s"
  using inv_run [OF inv_New] .

text \<open>
What the invariant says about one service.
\<close>

lemma exited_cases:
  assumes "svc_inv c sv" and "sup sv = SupExited"
  shows "startCalled sv \<and> startResult sv \<noteq> None \<and>
         (stopCalls sv = 1 \<and> forwarded sv = [] \<and> startResult sv = Some None \<and> c \<or>
          stopCalls sv = 0 \<and> (\<exists>e. startResult sv = Some (Some e) \<and> forwarded sv = [e]))"
  using assms
  by (cases "starter sv"; cases "stopCalls sv = 0")
     (auto simp: inv_defs split: option.splits)

lemma select_cases:
  assumes "svc_inv c sv"
  shows "(stopCalls sv = 0 \<or> forwarded sv = []) \<and> stopCalls sv \<le> 1 \<and>
         length (forwarded sv) \<le> 1 \<and> (0 < stopCalls sv \<longrightarrow> c)"
  using assms
  by (cases "sup sv")
     (auto simp: svc_inv_def forwarded_failure_def split: if_splits option.splits)


lemma live_sum_0: "sum_list (map live xs) = 0 \<Longrightarrow> x \<in> set xs \<Longrightarrow> sup x = SupExited"
  by (induction xs) (auto simp: live_def split: if_splits)

lemma live_sum_filter:
  "sum_list (map live xs) = length (filter (\<lambda>sv. sup sv \<noteq> SupExited) xs)"
  by (induction xs) (auto simp: live_def)

section \<open>Quiescent states and progress\<close>

lemma quiescent_service:
  "quiescent s \<Longrightarrow> i < length (services s) \<Longrightarrow> ev \<in> set (service_events i) \<Longrightarrow>
   step ev s = None"
  by (auto simp: quiescent_def internal_events_def)


text \<open>
What a quiescent state of a live process looks like at service \<open>i\<close>.
\<close>

lemma quiescent_local:
  assumes q: "quiescent s" and i: "i < length (services s)" and ex: "exited s = None"
  shows "start_spawn (services s ! i) = None" "go_call (services s ! i) = None"
    "start_recv_err (services s ! i) = None" "start_done (ctxDone s) (services s ! i) = None"
    "go_exit (services s ! i) = None" "start_wait_done (services s ! i) = None"
    "start_exit (services s ! i) = None"
    "dispatcher s = DispRecv \<Longrightarrow> start_send (services s ! i) = None"
proof -
  have *: "\<And>ev. ev \<in> set (service_events i) \<Longrightarrow> step ev s = None"
    using quiescent_service [OF q i] .
  show "start_spawn (services s ! i) = None"
    using * [of "EvSupSpawn i"] i ex
    by (simp add: service_events_def step_def on_service_def split: option.splits)
  show "go_call (services s ! i) = None"
    using * [of "EvGoCall i"] i ex
    by (simp add: service_events_def step_def on_service_def split: option.splits)
  show "start_recv_err (services s ! i) = None"
    using * [of "EvSupRecvErr i"] i ex
    by (simp add: service_events_def step_def on_service_def split: option.splits)
  show "start_done (ctxDone s) (services s ! i) = None"
    using * [of "EvSupDone i"] i ex
    by (simp add: service_events_def step_def on_service_def split: option.splits)
  show "go_exit (services s ! i) = None"
    using * [of "EvGoExit i"] i ex
    by (simp add: service_events_def step_def on_service_def split: option.splits)
  show "start_wait_done (services s ! i) = None"
    using * [of "EvSupWaitDone i"] i ex
    by (simp add: service_events_def step_def on_service_def split: option.splits)
  show "start_exit (services s ! i) = None"
    using * [of "EvSupExit i"] i ex
    by (simp add: service_events_def step_def on_service_def split: option.splits)
  show "dispatcher s = DispRecv \<Longrightarrow> start_send (services s ! i) = None"
    using * [of "EvSupSend i"] i ex
    by (auto simp: service_events_def step_def split: option.splits)
qed




text \<open>
In a quiescent, cancelled state every service whose \<open>Start\<close> has not failed was stopped.
\<close>

lemma quiescent_cancelled_stopped:
  assumes inv: "lifetime_inv s" and q: "quiescent s" and ex: "exited s = None"
    and c: "ctxDone s" and j: "j < length (services s)"
    and r: "startResult (services s ! j) = None \<or> startResult (services s ! j) = Some None"
  shows "stopCalls (services s ! j) = 1"
proof -
  let ?sv = "services s ! j"
  note l = quiescent_local [OF q j ex]
  have sv: "svc_inv (ctxDone s) ?sv" using inv_nth [OF inv j] .
  show ?thesis
  proof (cases "sup ?sv")
    case SupEntry
    with l(1) show ?thesis by (simp add: start_spawn_def)
  next
    case SupSelect
    with l(4) c show ?thesis by (simp add: start_done_def)
  next
    case (SupForward e')
    with sv r show ?thesis by (auto simp: inv_defs)
  next
    case SupStop
    with sv show ?thesis by (simp add: svc_inv_def)
  next
    case SupWait
    with sv show ?thesis by (simp add: svc_inv_def)
  next
    case SupReturn
    with l(7) show ?thesis by (simp add: start_exit_def)
  next
    case SupExited
    with sv r show ?thesis
      by (cases "stopCalls ?sv = 0") (auto simp: inv_defs split: option.splits)
  qed
qed

text \<open>
Every step of the package's goroutines uses up some of \<open>work\<close>.
\<close>

lemma svc_rank_simps:
  "svc_rank (sv\<lparr> sup := p \<rparr>) = sup_rank p + go_rank (starter sv)"
  "svc_rank (sv\<lparr> starter := g \<rparr>) = sup_rank (sup sv) + go_rank g"
  "svc_rank (sv\<lparr> startCalled := b \<rparr>) = svc_rank sv"
  "svc_rank (sv\<lparr> startResult := r \<rparr>) = svc_rank sv"
  "svc_rank (sv\<lparr> stopCalls := n \<rparr>) = svc_rank sv"
  "svc_rank (sv\<lparr> forwarded := es \<rparr>) = svc_rank sv"
  by (simp_all add: svc_rank_def)







section \<open>The states after the runs\<close>

lemmas step_defs = step_def Init_def Start_def newService_def on_service_def local_defs
  handleErrors_recv_def handleErrors_handle_def wgDone_def Shutdown_def panic_def
  handleShutdownSignals_body_def

lemmas run_defs = step_defs New_def

lemma run_append:
  "run (xs @ ys) s = (case run xs s of None \<Rightarrow> None | Some s1 \<Rightarrow> run ys s1)"
  by (induction xs arbitrary: s) (auto split: option.splits)

lemma startup_failure_state:
  "run startup_failure_run New =
     Some \<lparr> ctxDone = False, serviceWg = 0,
            services =
              [\<lparr> sup = SupExited, starter = GoDefer, startCalled = True,
                 startResult = Some (Some (ErrOther ''listen tcp :80: bind: address already in use'')),
                 stopCalls = 0,
                 forwarded = [ErrOther ''listen tcp :80: bind: address already in use''] \<rparr>],
            dispatcher = DispGot (ErrOther ''listen tcp :80: bind: address already in use''),
            listener = LisRecv, count = 0, signals = None, logged = [], exited = None \<rparr>"
  by (simp add: startup_failure_run_def run_defs)

lemma clean_stop_state:
  "run clean_stop_run New =
     Some \<lparr> ctxDone = True, serviceWg = 0,
            services =
              [\<lparr> sup = SupExited, starter = GoExited, startCalled = True,
                 startResult = Some None, stopCalls = 1, forwarded = [] \<rparr>],
            dispatcher = DispRecv, listener = LisRecv, count = 0, signals = None,
            logged = [], exited = None \<rparr>"
  by (simp add: clean_stop_run_def run_defs)

lemma failure_after_cancel_state:
  "run failure_after_cancel_run New =
     Some \<lparr> ctxDone = True, serviceWg = 1,
            services =
              [\<lparr> sup = SupWait,
                 starter = GoSend (ErrOther ''listen tcp :80: bind: address already in use''),
                 startCalled = True,
                 startResult = Some (Some (ErrOther ''listen tcp :80: bind: address already in use'')),
                 stopCalls = 1, forwarded = [] \<rparr>],
            dispatcher = DispRecv, listener = LisRecv, count = 0, signals = None,
            logged = [], exited = None \<rparr>"
  by (simp add: failure_after_cancel_run_def run_defs)

lemma failure_stops_other_state:
  "run failure_stops_other_run New =
     Some \<lparr> ctxDone = True, serviceWg = 1,
            services =
              [\<lparr> sup = SupExited, starter = GoExited, startCalled = True,
                 startResult = Some (Some (ErrOther ''listen tcp :80: bind: address already in use'')),
                 stopCalls = 0,
                 forwarded = [ErrOther ''listen tcp :80: bind: address already in use''] \<rparr>,
               \<lparr> sup = SupStop, starter = GoStart, startCalled = True,
                 startResult = None, stopCalls = 1, forwarded = [] \<rparr>],
            dispatcher = DispRecv, listener = LisRecv, count = 0, signals = None,
            logged = [ErrOther ''listen tcp :80: bind: address already in use''],
            exited = None \<rparr>"
  by (simp add: failure_stops_other_run_def run_defs)

lemma self_terminated_state:
  "run self_terminated_run New =
     Some \<lparr> ctxDone = False, serviceWg = 1,
            services =
              [\<lparr> sup = SupSelect, starter = GoExited, startCalled = True,
                 startResult = Some None, stopCalls = 0, forwarded = [] \<rparr>],
            dispatcher = DispRecv, listener = LisRecv, count = 0, signals = None,
            logged = [], exited = None \<rparr>"
  by (simp add: self_terminated_run_def run_defs)

lemma first_signal_state:
  "run first_signal_run New =
     Some \<lparr> ctxDone = False, serviceWg = 1,
            services =
              [\<lparr> sup = SupSelect, starter = GoStart, startCalled = True,
                 startResult = None, stopCalls = 0, forwarded = [] \<rparr>],
            dispatcher = DispGot ErrShutdownSignalReceived, listener = LisRecv, count = 1,
            signals = None, logged = [], exited = None \<rparr>"
  by (simp add: first_signal_run_def run_defs)

lemma second_signal_state:
  "run second_signal_run New =
     Some \<lparr> ctxDone = True, serviceWg = 1,
            services =
              [\<lparr> sup = SupStop, starter = GoStart, startCalled = True,
                 startResult = None, stopCalls = 1, forwarded = [] \<rparr>],
            dispatcher = DispGot ErrImmediateShutdownSignalReceived, listener = LisRecv,
            count = 2, signals = None, logged = [ErrShutdownSignalReceived], exited = None \<rparr>"
  by (simp add: second_signal_run_def run_append first_signal_state step_defs)


section \<open>Wait\<close>

text \<open>
  Claim C1, amended.  \<open>Wait\<close> returns only when, for every registered service, \<open>start\<close>
  has returned and the service's \<open>Start\<close> call has returned, and either \<open>Stop\<close> was
  called (once, \<open>Start\<close> having returned \<open>nil\<close>) or \<open>Start\<close> returned an error, which was
  handed to \<open>errCh\<close>, and \<open>Stop\<close> was not called.
\<close>

theorem Wait_returns_after:
  assumes "run evs New = Some s" and "Wait s \<noteq> None" and "i < length (services s)"
  shows "sup (services s ! i) = SupExited \<and>
         startCalled (services s ! i) \<and> startResult (services s ! i) \<noteq> None \<and>
         (stopCalls (services s ! i) = 1 \<and> forwarded (services s ! i) = [] \<and>
            startResult (services s ! i) = Some None \<or>
          stopCalls (services s ! i) = 0 \<and>
            (\<exists>e. startResult (services s ! i) = Some (Some e) \<and>
                 forwarded (services s ! i) = [e]))"
proof -
  have inv: "lifetime_inv s" using inv_reachable [OF assms(1)] .
  from assms(2) have "serviceWg s = 0" by (simp add: Wait_def split: if_splits)
  with inv have "sum_list (map live (services s)) = 0" by (simp add: lifetime_inv_def)
  with assms(3) have ex: "sup (services s ! i) = SupExited" by (simp add: live_sum_0)
  from exited_cases [OF inv_nth [OF inv assms(3)] ex] ex show ?thesis by blast
qed

text \<open>
The run \<open>clean_stop_run\<close>: \<open>Wait\<close> returns after \<open>Stop\<close> was called and \<open>Start\<close> returned.
\<close>

theorem Wait_returns_after_witness:
  "run clean_stop_run New \<noteq> None \<and> Wait (the (run clean_stop_run New)) \<noteq> None \<and>
   stopCalls (services (the (run clean_stop_run New)) ! 0) = 1 \<and>
   startResult (services (the (run clean_stop_run New)) ! 0) = Some None"
  using Wait_returns_after [of clean_stop_run "the (run clean_stop_run New)" 0]
  by (simp add: clean_stop_state Wait_def)

text \<open>
  Claim C1 as stated fails: after the run \<open>startup_failure_run\<close> \<open>Wait\<close> returns although
  \<open>Stop\<close> of the only service was never called (the interface says so: \<open>Stop\<close> is not
  called if \<open>Start\<close> returned an error).
\<close>

theorem Wait_returns_without_Stop:
  "run startup_failure_run New \<noteq> None \<and>
   Wait (the (run startup_failure_run New)) \<noteq> None \<and>
   length (services (the (run startup_failure_run New))) = 1 \<and>
   stopCalls (services (the (run startup_failure_run New)) ! 0) = 0"
  by (simp add: startup_failure_state Wait_def)

section \<open>The supervisory task\<close>

text \<open>
  Claim C2.  In every state the process can reach, for every registered service: the
  supervisory task has not both called \<open>Stop\<close> and handed an error to \<open>errCh\<close>, and has
  done either at most once; \<open>Stop\<close> was called only if the context is cancelled; a task
  that has returned has done exactly one of the two, and \<open>Start\<close> was called and has
  returned by then (on the \<open>Stop\<close> path the anonymous goroutine has exited); and
  \<open>serviceWg\<close> counts exactly the services whose task has not returned.
\<close>

theorem supervisory_task:
  assumes "run evs New = Some s" and "i < length (services s)"
  shows "(stopCalls (services s ! i) = 0 \<or> forwarded (services s ! i) = []) \<and>
         stopCalls (services s ! i) \<le> 1 \<and> length (forwarded (services s ! i)) \<le> 1 \<and>
         (0 < stopCalls (services s ! i) \<longrightarrow> ctxDone s) \<and>
         (sup (services s ! i) = SupExited \<longrightarrow>
            startCalled (services s ! i) \<and> startResult (services s ! i) \<noteq> None \<and>
            (stopCalls (services s ! i) = 1 \<and> forwarded (services s ! i) = [] \<and>
               starter (services s ! i) = GoExited \<or>
             stopCalls (services s ! i) = 0 \<and> length (forwarded (services s ! i)) = 1)) \<and>
         serviceWg s = int (length (filter (\<lambda>sv. sup sv \<noteq> SupExited) (services s)))"
proof -
  have inv: "lifetime_inv s" using inv_reachable [OF assms(1)] .
  have sv: "svc_inv (ctxDone s) (services s ! i)" using inv_nth [OF inv assms(2)] .
  have a: "sup (services s ! i) = SupExited \<longrightarrow>
            startCalled (services s ! i) \<and> startResult (services s ! i) \<noteq> None \<and>
            (stopCalls (services s ! i) = 1 \<and> forwarded (services s ! i) = [] \<and>
               starter (services s ! i) = GoExited \<or>
             stopCalls (services s ! i) = 0 \<and> length (forwarded (services s ! i)) = 1)"
    using exited_cases [OF sv] sv by (auto simp: svc_inv_def split: if_splits)
  have b: "serviceWg s = int (length (filter (\<lambda>sv. sup sv \<noteq> SupExited) (services s)))"
    using inv by (simp add: lifetime_inv_def live_sum_filter)
  from select_cases [OF sv] a b show ?thesis by blast
qed

text \<open>
The run \<open>failure_stops_other_run\<close>: one service on each path.
\<close>

theorem supervisory_task_witness:
  "run failure_stops_other_run New \<noteq> None \<and>
   stopCalls (services (the (run failure_stops_other_run New)) ! 0) = 0 \<and>
   length (forwarded (services (the (run failure_stops_other_run New)) ! 0)) = 1 \<and>
   stopCalls (services (the (run failure_stops_other_run New)) ! 1) = 1 \<and>
   forwarded (services (the (run failure_stops_other_run New)) ! 1) = [] \<and>
   ctxDone (the (run failure_stops_other_run New)) \<and>
   serviceWg (the (run failure_stops_other_run New)) = 1"
  using supervisory_task [of failure_stops_other_run "the (run failure_stops_other_run New)" 0]
    supervisory_task [of failure_stops_other_run "the (run failure_stops_other_run New)" 1]
  by (simp add: failure_stops_other_state)

section \<open>A failing startup stops the other services\<close>















section \<open>A failing startup against a shutdown\<close>

text \<open>
  Nothing gets a service out of \<open>start_deadlock\<close>: \<open>start\<close> does not read \<open>startErrs\<close>
  any more, so the anonymous goroutine never gets past its send.
\<close>

lemma deadlock_local:
  assumes "start_deadlock e sv"
  shows "start_spawn sv = None" "go_call sv = None" "Start_returns r sv = None"
    "start_recv_err sv = None" "start_done c sv = None" "go_exit sv = None"
    "start_wait_done sv = None" "start_send sv = None" "start_exit sv = None"
    "Stop_returns sv = Some sv' \<Longrightarrow> start_deadlock e sv'"
  using assms by (auto simp: start_deadlock_def local_defs split: if_splits)

lemma deadlock_on_service:
  assumes "i < length (services s)" and "start_deadlock e (services s ! i)"
    and "on_service k f s = Some s'"
    and "\<And>sv'. f (services s ! i) = Some sv' \<Longrightarrow> start_deadlock e sv'"
  shows "i < length (services s') \<and> start_deadlock e (services s' ! i)"
proof -
  from on_service_Some [OF assms(3)] obtain sv' where
    k: "k < length (services s)" and f: "f (services s ! k) = Some sv'"
    and s': "s' = s\<lparr> services := (services s)[k := sv'] \<rparr>" by blast
  show ?thesis
  proof (cases "k = i")
    case True
    with f assms(1,4) show ?thesis by (simp add: s')
  next
    case False
    with assms(1,2) show ?thesis by (simp add: s')
  qed
qed

lemma deadlock_step:
  assumes i: "i < length (services s)" and d: "start_deadlock e (services s ! i)"
    and st: "step ev s = Some s'"
  shows "i < length (services s') \<and> start_deadlock e (services s' ! i)"
proof -
  have ex: "exited s = None" using st by (simp add: step_def split: if_splits)
  note l = deadlock_local [OF d]
  show ?thesis
  proof (cases ev)
    case EvInit
    with st i d ex show ?thesis by (auto simp: step_def Init_def split: if_splits)
  next
    case EvStart
    with st i d ex show ?thesis by (auto simp: step_def Start_def nth_append)
  next
    case EvShutdown
    with st i d ex show ?thesis by (auto simp: step_def Shutdown_def)
  next
    case EvParentCancel
    with st i d ex show ?thesis by (auto simp: step_def)
  next
    case (EvSignal sig)
    with st i d ex show ?thesis by (auto simp: step_def split: if_splits)
  next
    case (EvStartReturns k r)
    with st ex have "on_service k (Start_returns r) s = Some s'" by (simp add: step_def)
    from deadlock_on_service [OF i d this] l show ?thesis by simp
  next
    case (EvStopReturns k)
    with st ex have "on_service k Stop_returns s = Some s'" by (simp add: step_def)
    from deadlock_on_service [OF i d this] l show ?thesis by simp
  next
    case (EvSupSpawn k)
    with st ex have "on_service k start_spawn s = Some s'" by (simp add: step_def)
    from deadlock_on_service [OF i d this] l show ?thesis by simp
  next
    case (EvGoCall k)
    with st ex have "on_service k go_call s = Some s'" by (simp add: step_def)
    from deadlock_on_service [OF i d this] l show ?thesis by simp
  next
    case (EvSupRecvErr k)
    with st ex have "on_service k start_recv_err s = Some s'" by (simp add: step_def)
    from deadlock_on_service [OF i d this] l show ?thesis by simp
  next
    case (EvSupDone k)
    with st ex have "on_service k (start_done (ctxDone s)) s = Some s'" by (simp add: step_def)
    from deadlock_on_service [OF i d this] l show ?thesis by simp
  next
    case (EvGoExit k)
    with st ex have "on_service k go_exit s = Some s'" by (simp add: step_def)
    from deadlock_on_service [OF i d this] l show ?thesis by simp
  next
    case (EvSupWaitDone k)
    with st ex obtain s1 where s1: "on_service k start_wait_done s = Some s1"
      and s': "s' = wgDone s1" by (auto simp: step_def)
    from deadlock_on_service [OF i d s1] l show ?thesis by (simp add: s' wgDone_def)
  next
    case (EvSupSend k)
    show ?thesis
    proof (cases "k = i")
      case True
      with EvSupSend st ex l(8) show ?thesis by (simp add: step_def split: if_splits)
    next
      case False
      with EvSupSend st ex i d show ?thesis
        by (cases "dispatcher s")
           (auto simp: step_def handleErrors_recv_def panic_def split: if_splits option.splits)
    qed
  next
    case (EvSupExit k)
    with st ex obtain s1 where s1: "on_service k start_exit s = Some s1"
      and s': "s' = wgDone s1" by (auto simp: step_def)
    from deadlock_on_service [OF i d s1] l show ?thesis by (simp add: s' wgDone_def)
  next
    case EvLisRecv
    with st i d ex show ?thesis
      by (auto simp: step_def split: lis_pc.splits option.splits prod.splits)
  next
    case EvLisSend
    with st i d ex show ?thesis
      by (auto simp: step_def handleErrors_recv_def panic_def split: lis_pc.splits disp_pc.splits)
  next
    case EvDispHandle
    with st i d ex show ?thesis
      by (cases "dispatcher s")
         (auto simp: step_def handleErrors_handle_def Shutdown_def split: if_splits)
  qed
qed

lemma deadlock_run:
  "i < length (services s) \<Longrightarrow> start_deadlock e (services s ! i) \<Longrightarrow> run evs s = Some s' \<Longrightarrow>
   i < length (services s') \<and> start_deadlock e (services s' ! i)"
proof (induction evs arbitrary: s)
  case Nil
  then show ?case by simp
next
  case (Cons ev evs)
  from Cons.prems(3) obtain s1 where s1: "step ev s = Some s1" and r: "run evs s1 = Some s'"
    by (auto split: option.splits)
  from deadlock_step [OF Cons.prems(1,2) s1] Cons.IH [OF _ _ r] show ?case by blast
qed

lemma deadlock_blocks_Wait:
  assumes "lifetime_inv s" and "i < length (services s)"
    and "start_deadlock e (services s ! i)"
  shows "Wait s = None"
proof -
  have "live (services s ! i) \<le> sum_list (map live (services s))"
    using assms(2) by (rule nth_le_sum_list_map)
  moreover have "live (services s ! i) = 1"
    using assms(3) by (auto simp: start_deadlock_def live_def)
  moreover have "serviceWg s = int (sum_list (map live (services s)))"
    using assms(1) by (simp add: lifetime_inv_def)
  ultimately have "serviceWg s \<noteq> 0" by linarith
  then show ?thesis by (simp add: Wait_def)
qed

text \<open>
  Claim C4 fails on the code.  In the run \<open>failure_after_cancel_run\<close> the \<open>Start\<close> of
  the service returns an error while the context is cancelled and the \<open>select\<close> takes the
  cancellation.  Whatever happens afterwards, \<open>start\<close> stays in \<open>svc.Stop()\<close> or
  \<open>startWg.Wait()\<close>, the anonymous goroutine stays blocked in \<open>startErrs <- err\<close>, the
  error is never handed to \<open>errCh\<close>, and \<open>Wait\<close> does not return.
\<close>

theorem start_error_after_cancel_deadlocks:
  "run failure_after_cancel_run New \<noteq> None \<and>
   (\<forall>evs s'. run (failure_after_cancel_run @ evs) New = Some s' \<longrightarrow>
      0 < length (services s') \<and>
      start_deadlock (ErrOther ''listen tcp :80: bind: address already in use'')
        (services s' ! 0) \<and>
      Wait s' = None)"
proof (intro conjI allI impI)
  show "run failure_after_cancel_run New \<noteq> None"
    by (simp add: failure_after_cancel_state)
next
  fix evs s'
  assume r: "run (failure_after_cancel_run @ evs) New = Some s'"
  let ?s = "the (run failure_after_cancel_run New)"
  have r2: "run evs ?s = Some s'"
    using r by (simp add: run_append failure_after_cancel_state)
  have d0: "0 < length (services ?s) \<and>
            start_deadlock (ErrOther ''listen tcp :80: bind: address already in use'')
              (services ?s ! 0)"
    by (simp add: failure_after_cancel_state start_deadlock_def)
  from d0 deadlock_run [OF _ _ r2, of 0]
  have d: "0 < length (services s') \<and>
           start_deadlock (ErrOther ''listen tcp :80: bind: address already in use'')
             (services s' ! 0)"
    by blast
  from d show "0 < length (services s')" by simp
  from d show "start_deadlock (ErrOther ''listen tcp :80: bind: address already in use'')
                 (services s' ! 0)" by simp
  from deadlock_blocks_Wait [OF inv_reachable [OF r]] d show "Wait s' = None" by blast
qed

text \<open>
The same after a signal has been received and handled.
\<close>

theorem start_error_after_cancel_deadlocks_witness:
  "run (failure_after_cancel_run @ [EvSignal SIGINT, EvLisRecv, EvLisSend, EvDispHandle]) New
     \<noteq> None \<and>
   start_deadlock (ErrOther ''listen tcp :80: bind: address already in use'')
     (services (the (run (failure_after_cancel_run @
        [EvSignal SIGINT, EvLisRecv, EvLisSend, EvDispHandle]) New)) ! 0) \<and>
   Wait (the (run (failure_after_cancel_run @
        [EvSignal SIGINT, EvLisRecv, EvLisSend, EvDispHandle]) New)) = None"
proof -
  have r: "run (failure_after_cancel_run @ [EvSignal SIGINT, EvLisRecv, EvLisSend, EvDispHandle])
             New \<noteq> None"
    by (simp add: run_append failure_after_cancel_state step_defs)
  then obtain s' where
    s': "run (failure_after_cancel_run @ [EvSignal SIGINT, EvLisRecv, EvLisSend, EvDispHandle])
           New = Some s'" by blast
  from start_error_after_cancel_deadlocks s' show ?thesis by simp
qed

section \<open>The listener\<close>

lemma handleShutdownSignals_loop_length: "length (handleShutdownSignals_loop c sigs) = length sigs"
  by (induction sigs arbitrary: c) (auto simp: handleShutdownSignals_body_def Let_def)

lemma handleShutdownSignals_loop_nth:
  "k < length sigs \<Longrightarrow>
   handleShutdownSignals_loop c sigs ! k =
     (c + int k + 1,
      if c + int k + 1 > 1 \<or> sigs ! k = SIGKILL then ErrImmediateShutdownSignalReceived
      else ErrShutdownSignalReceived)"
proof (induction sigs arbitrary: c k)
  case Nil
  then show ?case by simp
next
  case (Cons sig sigs)
  show ?case
  proof (cases k)
    case 0
    then show ?thesis by (simp add: handleShutdownSignals_body_def Let_def)
  next
    case (Suc j)
    with Cons.prems have "j < length sigs" by simp
    from Cons.IH [OF this, of "c + 1"] Suc show ?thesis
      by (simp add: handleShutdownSignals_body_def Let_def add.commute add.left_commute)
  qed
qed

text \<open>
  The counter is a Go \<open>int\<close>; the model counts in \<open>int\<close>.  In the running process the
  counter never exceeds three, so no width of \<open>int\<close> makes a difference.
\<close>

lemma count_bounded: "run evs New = Some s \<Longrightarrow> 0 \<le> count s \<and> count s \<le> 3"
  using inv_reachable [of evs s]
  by (cases "listener s") (auto simp: lifetime_inv_def count_inv_def count_ok_def)

text \<open>
  Claim C5.  For every sequence of received signals, the listener emits one error per
  signal: the graceful one (\<open>ErrShutdownSignalReceived\<close>) for the first received signal
  when it is an interrupt or a terminate signal, the immediate one
  (\<open>ErrImmediateShutdownSignalReceived\<close>) for every later signal and for every kill
  signal; the counter after the signal at position \<open>k\<close> is \<open>k + 1\<close>, so it grows
  by one with each signal.
\<close>

theorem listener_events:
  "k < length sigs \<Longrightarrow>
   length (handleShutdownSignals_loop 0 sigs) = length sigs \<and>
   fst (handleShutdownSignals_loop 0 sigs ! k) = int k + 1 \<and>
   snd (handleShutdownSignals_loop 0 sigs ! k) =
     (if k = 0 \<and> sigs ! k \<noteq> SIGKILL then ErrShutdownSignalReceived
      else ErrImmediateShutdownSignalReceived)"
  by (cases "k = 0") (simp_all add: handleShutdownSignals_loop_length handleShutdownSignals_loop_nth)

text \<open>
Three signals: graceful, then immediate twice.
\<close>

theorem listener_events_witness:
  "snd (handleShutdownSignals_loop 0 [SIGTERM, SIGINT, SIGKILL] ! 0) = ErrShutdownSignalReceived \<and>
   snd (handleShutdownSignals_loop 0 [SIGTERM, SIGINT, SIGKILL] ! 1) = ErrImmediateShutdownSignalReceived \<and>
   fst (handleShutdownSignals_loop 0 [SIGTERM, SIGINT, SIGKILL] ! 1) = 2"
  using listener_events [of 0 "[SIGTERM, SIGINT, SIGKILL]"]
        listener_events [of 1 "[SIGTERM, SIGINT, SIGKILL]"]
  by simp

section \<open>The dispatcher\<close>

lemma step_exited: "exited s \<noteq> None \<Longrightarrow> step ev s = None"
  by (simp add: step_def)

text \<open>
  Claim C6.  When the dispatcher holds a received error, its next step is always
  possible, whatever the services are doing.  For \<open>ErrImmediateShutdownSignalReceived\<close>
  the step exits the process with status 1, leaves the context as it was, logs nothing,
  and nothing happens afterwards (no pending \<open>Stop\<close> is waited for).  For every other
  error the step logs the error and cancels the context, and the dispatcher goes back to
  receiving.
\<close>

theorem dispatcher_handles:
  assumes "dispatcher s = DispGot e" and "exited s = None"
  shows "step EvDispHandle s = Some (handleErrors_handle e s) \<and>
         (e = ErrImmediateShutdownSignalReceived \<longrightarrow>
            exited (handleErrors_handle e s) = Some 1 \<and>
            ctxDone (handleErrors_handle e s) = ctxDone s \<and>
            services (handleErrors_handle e s) = services s \<and>
            logged (handleErrors_handle e s) = logged s \<and>
            (\<forall>ev. step ev (handleErrors_handle e s) = None)) \<and>
         (e \<noteq> ErrImmediateShutdownSignalReceived \<longrightarrow>
            exited (handleErrors_handle e s) = None \<and>
            logged (handleErrors_handle e s) = logged s @ [e] \<and>
            ctxDone (handleErrors_handle e s) \<and>
            dispatcher (handleErrors_handle e s) = DispRecv \<and>
            services (handleErrors_handle e s) = services s)"
  using assms by (auto simp: step_def handleErrors_handle_def Shutdown_def)

text \<open>
  The first signal is logged and cancels; the second exits with status 1 while \<open>Stop\<close>
  of the service has not returned, and never will.
\<close>

theorem dispatcher_handles_witness:
  "run first_signal_run New \<noteq> None \<and> run second_signal_run New \<noteq> None \<and>
   dispatcher (the (run first_signal_run New)) = DispGot ErrShutdownSignalReceived \<and>
   ctxDone (the (step EvDispHandle (the (run first_signal_run New)))) \<and>
   logged (the (step EvDispHandle (the (run first_signal_run New)))) =
     [ErrShutdownSignalReceived] \<and>
   dispatcher (the (run second_signal_run New)) = DispGot ErrImmediateShutdownSignalReceived \<and>
   sup (services (the (run second_signal_run New)) ! 0) = SupStop \<and>
   exited (the (step EvDispHandle (the (run second_signal_run New)))) = Some 1 \<and>
   step (EvStopReturns 0) (the (step EvDispHandle (the (run second_signal_run New)))) = None"
  using dispatcher_handles [of "the (run first_signal_run New)" ErrShutdownSignalReceived]
    dispatcher_handles [of "the (run second_signal_run New)" ErrImmediateShutdownSignalReceived]
  by (simp add: first_signal_state second_signal_state)

text \<open>
  Claim C8.  When the receive on \<open>errCh\<close> reports a closed channel, the dispatcher
  cancels the context and returns: it is in no loop any more and takes no further step.
  Nothing else changes.
\<close>

theorem dispatcher_closed_queue:
  "ctxDone (handleErrors_recv None s) \<and>
   dispatcher (handleErrors_recv None s) = DispReturned \<and>
   services (handleErrors_recv None s) = services s \<and>
   exited (handleErrors_recv None s) = exited s \<and>
   logged (handleErrors_recv None s) = logged s \<and>
   step EvDispHandle (handleErrors_recv None s) = None"
  by (simp add: handleErrors_recv_def Shutdown_def step_def)

text \<open>
In a freshly initialised coordinator.
\<close>

theorem dispatcher_closed_queue_witness:
  "ctxDone (handleErrors_recv None (Init New)) \<and>
   dispatcher (handleErrors_recv None (Init New)) = DispReturned \<and>
   step EvDispHandle (handleErrors_recv None (Init New)) = None"
  using dispatcher_closed_queue [of "Init New"] by simp

section \<open>Shutdown\<close>

lemma step_ctxDone: "step ev s = Some s' \<Longrightarrow> ctxDone s \<Longrightarrow> ctxDone s'"
  by (auto simp: step_def Init_def Start_def Shutdown_def on_service_def wgDone_def panic_def
      handleErrors_recv_def handleErrors_handle_def Let_def handleShutdownSignals_body_def
      split: if_splits event.splits option.splits prod.splits lis_pc.splits disp_pc.splits)

lemma Shutdown_Shutdown: "Shutdown (Shutdown s) = Shutdown s"
  by (simp add: Shutdown_def)

lemma Shutdown_funpow: "(Shutdown ^^ Suc n) s = Shutdown s"
  by (induction n) (simp_all add: Shutdown_Shutdown)

text \<open>
  Claim C7.  Calling \<open>Shutdown\<close> \<open>n \<ge> 1\<close> times leaves the coordinator in the state one
  call leaves it in; in that state the context is cancelled; and no step of the process
  takes a cancelled context to one that is not cancelled, so the context goes from not
  cancelled to cancelled at most once.
\<close>

theorem Shutdown_idempotent:
  "0 < n \<Longrightarrow>
   (Shutdown ^^ n) s = Shutdown s \<and> ctxDone (Shutdown s) \<and>
   (\<forall>ev s'. ctxDone s \<and> step ev s = Some s' \<longrightarrow> ctxDone s')"
  using Shutdown_funpow [of "n - 1" s] step_ctxDone [of _ s] by (auto simp: Shutdown_def)

text \<open>
Three calls, and a registration after them.
\<close>

theorem Shutdown_idempotent_witness:
  "(Shutdown ^^ 3) New = Shutdown New \<and> ctxDone (Shutdown New) \<and>
   ctxDone (the (step EvStart (Shutdown New)))"
  using Shutdown_idempotent [of 3 "Shutdown New"] Shutdown_idempotent [of 3 New]
  by (simp add: step_def Shutdown_def New_def Start_def)

section \<open>The adapters\<close>

text \<open>
  Claim C9.  \<open>Start\<close> of the HTTP adapter returns \<open>nil\<close> when \<open>ListenAndServe\<close> returned
  \<open>http.ErrServerClosed\<close> (or \<open>nil\<close>) and returns every other error unchanged; \<open>Start\<close>
  of the gRPC adapter returns \<open>nil\<close> when \<open>Serve\<close> returned \<open>grpc.ErrServerStopped\<close>
  (or \<open>nil\<close>), returns every other error of \<open>Serve\<close> unchanged, and returns an error
  (the wrapped one) whenever listening on the address failed.
\<close>

theorem adapter_start_errors:
  "httpService_Start (Some ErrServerClosed) = None \<and>
   httpService_Start None = None \<and>
   (\<forall>e. e \<noteq> ErrServerClosed \<longrightarrow> httpService_Start (Some e) = Some e) \<and>
   grpcService_Start None (Some ErrServerStopped) = None \<and>
   grpcService_Start None None = None \<and>
   (\<forall>e. e \<noteq> ErrServerStopped \<longrightarrow> grpcService_Start None (Some e) = Some e) \<and>
   (\<forall>e serve. grpcService_Start (Some e) serve =
       Some (ErrWrapped ''could not listen on tcp address: '' e))"
  by (simp add: httpService_Start_def grpcService_Start_def)

text \<open>
An address in use, and a failure of \<open>Serve\<close>.
\<close>

theorem adapter_start_errors_witness:
  "httpService_Start (Some (ErrOther ''listen tcp :80: bind: address already in use'')) =
     Some (ErrOther ''listen tcp :80: bind: address already in use'') \<and>
   grpcService_Start None (Some (ErrOther ''serve failed'')) = Some (ErrOther ''serve failed'') \<and>
   grpcService_Start (Some (ErrOther ''address already in use'')) None \<noteq> None"
  using adapter_start_errors by simp

section \<open>A service that terminates by itself\<close>

text \<open>
  Claim C10.  For a registered service whose \<open>Start\<close> has returned \<open>nil\<close>: as long as
  the context is not cancelled, \<open>start\<close> is blocked in its \<open>select\<close> (none of its steps
  can be taken), \<open>Stop\<close> has not been called, \<open>serviceWg\<close> is positive and \<open>Wait\<close> does
  not return; once the context is cancelled (in a process that has not exited), either
  \<open>Stop\<close> has been called once already, or \<open>start\<close> is still in its \<open>select\<close>, where
  the one step it can take is the call of \<open>Stop\<close>; and in a quiescent state \<open>Stop\<close> has
  been called.
\<close>

theorem self_terminated_service:
  assumes "run evs New = Some s" and "i < length (services s)"
    and "startResult (services s ! i) = Some None"
  shows "(\<not> ctxDone s \<longrightarrow>
            sup (services s ! i) = SupSelect \<and> stopCalls (services s ! i) = 0 \<and>
            0 < serviceWg s \<and> Wait s = None \<and>
            step (EvSupRecvErr i) s = None \<and> step (EvSupDone i) s = None \<and>
            step (EvSupWaitDone i) s = None \<and> step (EvSupSend i) s = None \<and>
            step (EvSupExit i) s = None) \<and>
         (ctxDone s \<and> exited s = None \<longrightarrow>
            stopCalls (services s ! i) = 1 \<or>
            sup (services s ! i) = SupSelect \<and> step (EvSupRecvErr i) s = None \<and>
            step (EvSupDone i) s \<noteq> None \<and>
            stopCalls (services (the (step (EvSupDone i) s)) ! i) = 1) \<and>
         (ctxDone s \<and> exited s = None \<and> quiescent s \<longrightarrow> stopCalls (services s ! i) = 1)"
proof -
  let ?sv = "services s ! i"
  have inv: "lifetime_inv s" using inv_reachable [OF assms(1)] .
  have sv: "svc_inv (ctxDone s) ?sv" using inv_nth [OF inv assms(2)] .
  have gr: "starter ?sv = GoDefer \<or> starter ?sv = GoExited"
    using sv assms(3) by (cases "starter ?sv") (auto simp: svc_inv_def go_inv_def)
  have a: "\<not> ctxDone s \<Longrightarrow> sup ?sv = SupSelect \<and> stopCalls ?sv = 0"
    using sv assms(3)
    by (cases "sup ?sv") (auto simp: svc_inv_def go_inv_def forwarded_failure_def split: if_splits)
  have w: "sup ?sv = SupSelect \<Longrightarrow> 0 < serviceWg s \<and> Wait s = None"
  proof -
    assume sel: "sup ?sv = SupSelect"
    have "live ?sv \<le> sum_list (map live (services s))"
      using assms(2) by (rule nth_le_sum_list_map)
    moreover have "live ?sv = 1" using sel by (simp add: live_def)
    moreover have "serviceWg s = int (sum_list (map live (services s)))"
      using inv by (simp add: lifetime_inv_def)
    ultimately have "0 < serviceWg s" by linarith
    then show ?thesis by (simp add: Wait_def)
  qed
  have b: "\<not> ctxDone s \<Longrightarrow>
            step (EvSupRecvErr i) s = None \<and> step (EvSupDone i) s = None \<and>
            step (EvSupWaitDone i) s = None \<and> step (EvSupSend i) s = None \<and>
            step (EvSupExit i) s = None"
    using a gr by (auto simp: step_def on_service_def local_defs)
  have c: "ctxDone s \<Longrightarrow> exited s = None \<Longrightarrow>
            stopCalls ?sv = 1 \<or>
            sup ?sv = SupSelect \<and> step (EvSupRecvErr i) s = None \<and>
            step (EvSupDone i) s \<noteq> None \<and>
            stopCalls (services (the (step (EvSupDone i) s)) ! i) = 1"
    using sv assms(2,3) gr
    by (cases "sup ?sv")
       (auto simp: svc_inv_def go_inv_def forwarded_failure_def step_def on_service_def
          local_defs split: if_splits)
  have d: "ctxDone s \<Longrightarrow> exited s = None \<Longrightarrow> quiescent s \<Longrightarrow> stopCalls ?sv = 1"
    using quiescent_cancelled_stopped [OF inv _ _ _ assms(2)] assms(3) by simp
  from a w b c d show ?thesis by blast
qed

text \<open>
The run \<open>self_terminated_run\<close>, before and after \<open>Shutdown\<close>.
\<close>

theorem self_terminated_service_witness:
  "run self_terminated_run New \<noteq> None \<and>
   startResult (services (the (run self_terminated_run New)) ! 0) = Some None \<and>
   \<not> ctxDone (the (run self_terminated_run New)) \<and>
   sup (services (the (run self_terminated_run New)) ! 0) = SupSelect \<and>
   Wait (the (run self_terminated_run New)) = None \<and>
   run (self_terminated_run @ [EvShutdown]) New \<noteq> None \<and>
   ctxDone (the (run (self_terminated_run @ [EvShutdown]) New)) \<and>
   stopCalls (services (the (step (EvSupDone 0)
      (the (run (self_terminated_run @ [EvShutdown]) New)))) ! 0) = 1"
  using self_terminated_service [of self_terminated_run "the (run self_terminated_run New)" 0]
    self_terminated_service [of "self_terminated_run @ [EvShutdown]"
      "the (run (self_terminated_run @ [EvShutdown]) New)" 0]
  by (simp add: run_append self_terminated_state step_defs Wait_def)

end
